theory Spec2Isabelle
  imports
    Main
    "HOL-Library.Sublist"
    "HOL-Library.Char_ord"
    "HOL-Library.List_Lexorder"
    "HOL-Library.AList"
begin

section \<open>Go strings and the library functions used by the template engine\<close>

text \<open>
  A Go \<open>string\<close> is a sequence of bytes; it is modelled as \<^typ>\<open>string\<close>, a list of
  8-bit characters. Indexing (\<open>in[i]\<close>), \<open>len\<close> and slicing count bytes, as in Go.
  \<open>sort.Strings\<close> orders strings bytewise and lexicographically, which is the order of
  \<^typ>\<open>char list\<close> given by the lexicographic order on lists over the byte order on
  characters.
\<close>

definition byte_in :: "nat \<Rightarrow> nat \<Rightarrow> char \<Rightarrow> bool" where
  "byte_in lo hi c = (lo \<le> of_char c \<and> of_char c \<le> hi)"

text \<open>
  \<open>unicode/utf8\<close>: the size that the table \<open>first\<close> gives to a leading byte (1 for
  ASCII and for the invalid leading bytes), and the range accepted for the second byte.
\<close>

definition utf8_size :: "char \<Rightarrow> nat" where
  "utf8_size c =
     (let b = (of_char c :: nat) in
      if b < 0xC2 then 1
      else if b < 0xE0 then 2
      else if b < 0xF0 then 3
      else if b < 0xF5 then 4
      else 1)"

definition accept_lo :: "char \<Rightarrow> nat" where
  "accept_lo c =
     (let b = (of_char c :: nat) in
      if b = 0xE0 then 0xA0 else if b = 0xF0 then 0x90 else 0x80)"

definition accept_hi :: "char \<Rightarrow> nat" where
  "accept_hi c =
     (let b = (of_char c :: nat) in
      if b = 0xED then 0x9F else if b = 0xF4 then 0x8F else 0xBF)"

text \<open>
  The width returned by \<open>utf8.DecodeRuneInString\<close>: 0 for the empty string, 1 for an
  ASCII byte and for every invalid or truncated encoding, otherwise the length of the
  encoding.
\<close>

definition rune_width :: "string \<Rightarrow> nat" where
  "rune_width s =
     (case s of
        [] \<Rightarrow> 0
      | s0 # t \<Rightarrow>
          let sz = utf8_size s0 in
          if sz = 1 then 1
          else if length s < sz then 1
          else if \<not> byte_in (accept_lo s0) (accept_hi s0) (s ! 1) then 1
          else if sz \<le> 2 then 2
          else if \<not> byte_in 0x80 0xBF (s ! 2) then 1
          else if sz \<le> 3 then 3
          else if \<not> byte_in 0x80 0xBF (s ! 3) then 1
          else 4)"

text \<open>\<open>strings.Index\<close>: the byte index of the first occurrence, or \<open>-1\<close>.\<close>

fun strings_Index :: "string \<Rightarrow> string \<Rightarrow> int" where
  "strings_Index [] sub = (if sub = [] then 0 else - 1)"
| "strings_Index (c # cs) sub =
     (if prefix sub (c # cs) then 0
      else (let r = strings_Index cs sub in if r < 0 then - 1 else r + 1))"

text \<open>
  \<open>strings.Replace(s, old, new, -1)\<close> for a non-empty \<open>old\<close>: the occurrences are found
  from left to right, each search starting after the previous occurrence.
\<close>

function replace_nonempty :: "string \<Rightarrow> string \<Rightarrow> string \<Rightarrow> string" where
  "replace_nonempty s old new =
     (let j = strings_Index s old in
      if old = [] \<or> j < 0 then s
      else take (nat j) s @ new @ replace_nonempty (drop (nat j + length old) s) old new)"
  by pat_completeness auto
termination
proof (relation "measure (\<lambda>(s, old, new). length s)")
  show "wf (measure (\<lambda>(s, old, new). length s))"
    by simp
next
  fix s old new :: string and j :: int
  assume j: "j = strings_Index s old" and "\<not> (old = [] \<or> j < 0)"
  then have "old \<noteq> []" and "s \<noteq> []"
    by (cases s; simp)+
  then show "((drop (nat j + length old) s, old, new), (s, old, new))
      \<in> measure (\<lambda>(s, old, new). length s)"
    by simp
qed

text \<open>
  \<open>strings.Replace(s, "", new, -1)\<close>: \<open>new\<close> is written at the beginning of the string
  and after each rune.
\<close>

function runes_with :: "string \<Rightarrow> string \<Rightarrow> string" where
  "runes_with s new =
     (if s = [] then []
      else take (rune_width s) s @ new @ runes_with (drop (rune_width s) s) new)"
  by pat_completeness auto
termination
proof (relation "measure (\<lambda>(s, new). length s)")
  show "wf (measure (\<lambda>(s, new). length s))"
    by simp
next
  fix s new :: string
  assume "s \<noteq> []"
  then have "0 < rune_width s"
    by (cases s) (simp_all add: rune_width_def Let_def)
  with \<open>s \<noteq> []\<close> show "((drop (rune_width s) s, new), (s, new)) \<in> measure (\<lambda>(s, new). length s)"
    by simp
qed

text \<open>
  \<open>strings.Replace(s, old, new, -1)\<close>. The library returns \<open>s\<close> at once when
  \<open>old == new\<close> or when \<open>old\<close> does not occur.
\<close>

definition strings_Replace :: "string \<Rightarrow> string \<Rightarrow> string \<Rightarrow> string" where
  "strings_Replace s old new =
     (if old = new then s
      else if old = [] then new @ runes_with s new
      else replace_nonempty s old new)"

section \<open>The template engine: \<open>ReplaceKeywords\<close> (processor/textutils.go)\<close>

text \<open>
  The Go map \<open>map[string]string\<close> is given by an association list; the map it denotes
  is \<^term>\<open>map_of m\<close>, its keys are the distinct first components, and indexing a
  missing key gives the empty string, as Go's zero value.
\<close>

type_synonym keymap = "(string \<times> string) list"

definition map_index :: "keymap \<Rightarrow> string \<Rightarrow> string" where
  "map_index m k = (case map_of m k of None \<Rightarrow> [] | Some v \<Rightarrow> v)"

text \<open>The keys collected by \<open>for k := range m\<close> and ordered by \<open>sort.Strings\<close>.\<close>

definition sorted_keys :: "keymap \<Rightarrow> string list" where
  "sorted_keys m = sort (remdups (map fst m))"

definition expandKeyword :: "string \<Rightarrow> string \<Rightarrow> string \<Rightarrow> string \<times> bool" where
  "expandKeyword s key val =
     (if strings_Index s key \<noteq> - 1 then (strings_Replace s key val, length val > 0)
      else (s, False))"

text \<open>
  The loop of \<open>expandAll\<close>, \<open>for i := len(keys) - 1; i >= 0; i--\<close>, over the keys in the
  order it visits them; the state is the string and the flag \<open>expanded\<close>.
\<close>

fun expand_loop :: "keymap \<Rightarrow> string list \<Rightarrow> string \<Rightarrow> bool \<Rightarrow> string \<times> bool" where
  "expand_loop m [] s expanded = (s, expanded)"
| "expand_loop m (k # ks) s expanded =
     (case expandKeyword s k (map_index m k) of
        (s', ok) \<Rightarrow> expand_loop m ks s' (expanded \<or> ok))"

definition expandAll :: "string \<Rightarrow> keymap \<Rightarrow> string" where
  "expandAll s m =
     (case expand_loop m (rev (sorted_keys m)) s False of
        (s', expanded) \<Rightarrow> if \<not> expanded then [] else s')"

text \<open>
  The scan \<open>for i, c := range in\<close>. The loop visits the string rune by rune, \<open>i\<close> being
  the byte index of the rune; a rune equals \<open>'{'\<close> or \<open>'}'\<close> exactly when the byte at
  \<open>i\<close> is that ASCII character. \<open>bopen\<close> is assigned at every unescaped \<open>'{'\<close> the loop
  meets; the loop breaks at the first unescaped \<open>'}'\<close>. The result is the pair
  \<open>(bopen, bclose)\<close>, each \<open>-1\<close> when never assigned.
\<close>

definition unescaped :: "string \<Rightarrow> nat \<Rightarrow> bool" where
  "unescaped s i = (i = 0 \<or> s ! (i - 1) \<noteq> CHR 0x5C)"

function scan_from :: "string \<Rightarrow> nat \<Rightarrow> int \<Rightarrow> int \<times> int" where
  "scan_from s i bopen =
     (if length s \<le> i then (bopen, - 1)
      else if s ! i = CHR ''{'' \<and> unescaped s i
        then scan_from s (i + rune_width (drop i s)) (int i)
      else if s ! i = CHR ''}'' \<and> unescaped s i
        then (bopen, int i)
      else scan_from s (i + rune_width (drop i s)) bopen)"
  by pat_completeness auto
termination
proof (relation "measure (\<lambda>(s, i, bopen). length s - i)")
  show "wf (measure (\<lambda>(s, i, bopen). length s - i))"
    by simp
next
  fix s :: string and i :: nat and bopen :: int
  assume "\<not> length s \<le> i"
  then have "drop i s \<noteq> []"
    by simp
  then have "0 < rune_width (drop i s)"
    by (cases "drop i s") (simp_all add: rune_width_def Let_def)
  with \<open>\<not> length s \<le> i\<close>
  show "((s, i + rune_width (drop i s), int i), (s, i, bopen))
          \<in> measure (\<lambda>(s, i, bopen). length s - i)"
    and "((s, i + rune_width (drop i s), bopen), (s, i, bopen))
          \<in> measure (\<lambda>(s, i, bopen). length s - i)"
    by simp_all
qed

definition scan_brackets :: "string \<Rightarrow> int \<times> int" where
  "scan_brackets s = scan_from s 0 (- 1)"

text \<open>
  \<open>ReplaceKeywords\<close> calls itself on a string that the mapping's values help to build,
  so it need not return: not returning is the value \<open>None\<close>.
\<close>

partial_function (option) ReplaceKeywords :: "string \<Rightarrow> keymap \<Rightarrow> string option" where
  "ReplaceKeywords s m =
     (case scan_brackets s of
        (bopen, bclose) \<Rightarrow>
          if bopen \<ge> 0 \<and> bclose > 0 \<and> bopen < bclose
          then ReplaceKeywords
                 (take (nat bopen) s
                  @ expandAll (take (nat bclose - (nat bopen + 1)) (drop (nat bopen + 1) s)) m
                  @ drop (nat bclose + 1) s) m
          else Some (expandAll s m))"

text \<open>
  The same function with its recursion depth made explicit: \<open>ReplaceKeywords_depth d\<close>
  runs \<open>ReplaceKeywords\<close> with room for \<open>d\<close> nested activations, and is \<open>None\<close> when
  the call would need a deeper one.
\<close>

fun ReplaceKeywords_depth :: "nat \<Rightarrow> string \<Rightarrow> keymap \<Rightarrow> string option" where
  "ReplaceKeywords_depth 0 s m = None"
| "ReplaceKeywords_depth (Suc d) s m =
     (case scan_brackets s of
        (bopen, bclose) \<Rightarrow>
          if bopen \<ge> 0 \<and> bclose > 0 \<and> bopen < bclose
          then ReplaceKeywords_depth d
                 (take (nat bopen) s
                  @ expandAll (take (nat bclose - (nat bopen + 1)) (drop (nat bopen + 1) s)) m
                  @ drop (nat bclose + 1) s) m
          else Some (expandAll s m))"

text \<open>
  Positions of the pattern, for stating what the scan finds: the first unescaped closing
  bracket of the string, and the last unescaped opening bracket before a position.
\<close>

definition first_close :: "string \<Rightarrow> nat \<Rightarrow> bool" where
  "first_close s j =
     (j < length s \<and> s ! j = CHR ''}'' \<and> unescaped s j
      \<and> (\<forall>k \<in> {..<j}. \<not> (s ! k = CHR ''}'' \<and> unescaped s k)))"

definition last_open_before :: "string \<Rightarrow> nat \<Rightarrow> nat \<Rightarrow> bool" where
  "last_open_before s i j =
     (i < j \<and> s ! i = CHR ''{'' \<and> unescaped s i
      \<and> (\<forall>k \<in> {i<..<j}. \<not> (s ! k = CHR ''{'' \<and> unescaped s k)))"

text \<open>
  The positions as the specification words them: \<open>spec_bopen\<close> is the index of the first
  unescaped opening bracket, \<open>spec_bclose\<close> the index of the first unescaped closing
  bracket after a given position.
\<close>

definition spec_bopen :: "string \<Rightarrow> nat option" where
  "spec_bopen s = List.find (\<lambda>i. s ! i = CHR ''{'' \<and> unescaped s i) [0..<length s]"

definition spec_bclose :: "string \<Rightarrow> nat \<Rightarrow> nat option" where
  "spec_bclose s i = List.find (\<lambda>j. s ! j = CHR ''}'' \<and> unescaped s j) [Suc i..<length s]"

text \<open>A pattern has a bracket pair when an unescaped \<open>{\<close> stands before an unescaped \<open>}\<close>.\<close>

definition bracket_pair :: "string \<Rightarrow> bool" where
  "bracket_pair s =
     (\<exists>j \<in> {..<length s}. \<exists>i \<in> {..<j}.
        s ! i = CHR ''{'' \<and> unescaped s i \<and> s ! j = CHR ''}'' \<and> unescaped s j)"



section \<open>The archive finalizer: \<open>FinalizeEPUB\<close>\<close>

subsection \<open>Paths, files and errors\<close>

text \<open>
  A path is the list of its components, from the file-system root: absolute and clean, so
  that one file has one path. \<open>filepath.ToSlash(a) == filepath.ToSlash(b)\<close> is then
  equality of paths, whatever the separator.
\<close>

type_synonym path = "string list"

text \<open>
  The content of a regular file is a sequence of bytes, or the archive that a
  \<open>zip.Writer\<close> wrote into it: the list of its entries in the order they were written,
  each with its name, its method and its payload (\<open>None\<close> when the copy into the entry
  broke off).
\<close>

datatype zmethod = Store | Deflate

datatype content =
    Bytes string
  | Zip "(string \<times> zmethod \<times> content option) list"

text \<open>
  The file system is a tree. \<open>Irregular\<close> stands for everything that is neither a
  regular file nor a directory (devices, sockets, links that \<open>Lstat\<close> reports as such).
\<close>

datatype node =
    Regular content
  | Directory "(string \<times> node) list"
  | Irregular

text \<open>
  The primitive operations and their errors. Besides the errors that the tree explains
  (a missing file, a file where a directory is needed), any operation may fail with an
  input/output error: \<open>faults\<close> is the set of operations that do. An operation that fails
  leaves the tree as it was.
\<close>

datatype errno = ENOENT | ENOTDIR | EISDIR | ENOTEMPTY | EIO

datatype ioop =
    OpStat path | OpLstat path | OpReadDir path | OpRemove path | OpMkdirAll path
  | OpCreate path | OpOpen path | OpCopy path | OpZipCreate string

datatype error =
    PathError ioop errno
  | OutputExists path
  | Wrap string error

record world =
  files :: node
  faults :: "ioop set"

text \<open>\<open>os.FileInfo\<close>, as far as \<open>FinalizeEPUB\<close> reads it, and the fields of \<open>Processor\<close> it uses.\<close>

record fileinfo =
  fi_Name :: string
  fi_IsRegular :: bool
  fi_IsDir :: bool

record processor =
  env_Debug :: bool
  overwrite :: bool
  tmpDir :: path

subsection \<open>\<open>path/filepath\<close>\<close>

definition filepath_Base :: "path \<Rightarrow> string" where
  "filepath_Base p = (if p = [] then ''/'' else last p)"

definition filepath_Dir :: "path \<Rightarrow> path" where
  "filepath_Dir p = butlast p"

definition filepath_Join :: "path \<Rightarrow> string \<Rightarrow> path" where
  "filepath_Join p name = p @ [name]"

fun filepath_Rel :: "path \<Rightarrow> path \<Rightarrow> error + path" where
  "filepath_Rel (b # bs) (t # ts) =
     (if b = t then filepath_Rel bs ts
      else Inr (replicate (length (b # bs)) ''..'' @ t # ts))"
| "filepath_Rel bs ts = Inr (replicate (length bs) ''..'' @ ts)"

fun filepath_ToSlash :: "path \<Rightarrow> string" where
  "filepath_ToSlash [] = ''.''"
| "filepath_ToSlash [x] = x"
| "filepath_ToSlash (x # y # ys) = x @ ''/'' @ filepath_ToSlash (y # ys)"

subsection \<open>Reading and changing the tree\<close>

text \<open>Resolving a path: a missing component is \<open>ENOENT\<close>, a file on the way is \<open>ENOTDIR\<close>.\<close>

fun fs_lookup :: "node \<Rightarrow> path \<Rightarrow> errno + node" where
  "fs_lookup n [] = Inr n"
| "fs_lookup (Directory cs) (x # xs) =
     (case map_of cs x of None \<Rightarrow> Inl ENOENT | Some c \<Rightarrow> fs_lookup c xs)"
| "fs_lookup n (x # xs) = Inl ENOTDIR"

text \<open>
  \<open>fs_update f t p\<close> rewrites the entry of \<open>p\<close> in its parent directory: \<open>f\<close> receives the
  node now at \<open>p\<close>, if any, and returns the node to leave there, if any.
\<close>

fun fs_update :: "(node option \<Rightarrow> errno + node option) \<Rightarrow> node \<Rightarrow> path \<Rightarrow> errno + node" where
  "fs_update f n [] = Inl EISDIR"
| "fs_update f (Directory cs) [x] =
     (case f (map_of cs x) of
        Inl e \<Rightarrow> Inl e
      | Inr None \<Rightarrow> Inr (Directory (AList.delete x cs))
      | Inr (Some n) \<Rightarrow> Inr (Directory (AList.update x n cs)))"
| "fs_update f (Directory cs) (x # y # ys) =
     (case map_of cs x of
        None \<Rightarrow> Inl ENOENT
      | Some c \<Rightarrow>
          (case fs_update f c (y # ys) of
             Inl e \<Rightarrow> Inl e
           | Inr c' \<Rightarrow> Inr (Directory (AList.update x c' cs))))"
| "fs_update f n (x # xs) = Inl ENOTDIR"

text \<open>\<open>os.MkdirAll\<close>: creates the directory and the missing ones above it.\<close>

fun fs_mkdirall :: "node \<Rightarrow> path \<Rightarrow> errno + node" where
  "fs_mkdirall (Directory cs) [] = Inr (Directory cs)"
| "fs_mkdirall n [] = Inl ENOTDIR"
| "fs_mkdirall (Directory cs) (x # xs) =
     (case fs_mkdirall (case map_of cs x of None \<Rightarrow> Directory [] | Some c \<Rightarrow> c) xs of
        Inl e \<Rightarrow> Inl e
      | Inr c' \<Rightarrow> Inr (Directory (AList.update x c' cs)))"
| "fs_mkdirall n (x # xs) = Inl ENOTDIR"

text \<open>
  \<open>filepath.Walk\<close> calls its function on the root and then, for a directory, on its
  entries in the order of their names, descending into each before the next. A failing
  \<open>ReadDir\<close> or \<open>Lstat\<close> is passed to the function as its error argument. \<open>walk\<close> lists
  the calls that \<open>Walk\<close> makes as long as the function returns \<open>nil\<close>.
\<close>

primrec walk :: "ioop set \<Rightarrow> node \<Rightarrow> path \<Rightarrow> (path \<times> (error + fileinfo)) list" where
  "walk F (Regular c) p = [(p, Inr \<lparr>fi_Name = filepath_Base p, fi_IsRegular = True, fi_IsDir = False\<rparr>)]"
| "walk F Irregular p = [(p, Inr \<lparr>fi_Name = filepath_Base p, fi_IsRegular = False, fi_IsDir = False\<rparr>)]"
| "walk F (Directory cs) p =
     (if OpReadDir p \<in> F then [(p, Inl (PathError (OpReadDir p) EIO))]
      else (p, Inr \<lparr>fi_Name = filepath_Base p, fi_IsRegular = False, fi_IsDir = True\<rparr>)
           # concat (map (\<lambda>(name, sub).
                 if OpLstat (p @ [name]) \<in> F
                 then [(p @ [name], Inl (PathError (OpLstat (p @ [name])) EIO))]
                 else sub (p @ [name]))
               (sort_key fst (map (map_prod id (walk F)) cs))))"

subsection \<open>\<open>os\<close>, \<open>io\<close> and \<open>archive/zip\<close>\<close>

definition file_info :: "path \<Rightarrow> node \<Rightarrow> fileinfo" where
  "file_info p n =
     \<lparr>fi_Name = filepath_Base p,
      fi_IsRegular = (case n of Regular c \<Rightarrow> True | _ \<Rightarrow> False),
      fi_IsDir = (case n of Directory cs \<Rightarrow> True | _ \<Rightarrow> False)\<rparr>"

definition os_Stat :: "world \<Rightarrow> path \<Rightarrow> error + fileinfo" where
  "os_Stat w p =
     (if OpStat p \<in> faults w then Inl (PathError (OpStat p) EIO)
      else case fs_lookup (files w) p of
             Inl e \<Rightarrow> Inl (PathError (OpStat p) e)
           | Inr n \<Rightarrow> Inr (file_info p n))"

fun os_IsNotExist :: "error \<Rightarrow> bool" where
  "os_IsNotExist (PathError opn e) = (e = ENOENT)"
| "os_IsNotExist e = False"

definition remove_slot :: "node option \<Rightarrow> errno + node option" where
  "remove_slot slot =
     (case slot of
        None \<Rightarrow> Inl ENOENT
      | Some (Directory (c # cs)) \<Rightarrow> Inl ENOTEMPTY
      | Some n \<Rightarrow> Inr None)"

definition os_Remove :: "world \<Rightarrow> path \<Rightarrow> error + world" where
  "os_Remove w p =
     (if OpRemove p \<in> faults w then Inl (PathError (OpRemove p) EIO)
      else case fs_update remove_slot (files w) p of
             Inl e \<Rightarrow> Inl (PathError (OpRemove p) e)
           | Inr t \<Rightarrow> Inr (w\<lparr>files := t\<rparr>))"

definition os_MkdirAll :: "world \<Rightarrow> path \<Rightarrow> error + world" where
  "os_MkdirAll w p =
     (if OpMkdirAll p \<in> faults w then Inl (PathError (OpMkdirAll p) EIO)
      else case fs_mkdirall (files w) p of
             Inl e \<Rightarrow> Inl (PathError (OpMkdirAll p) e)
           | Inr t \<Rightarrow> Inr (w\<lparr>files := t\<rparr>))"

definition create_slot :: "node option \<Rightarrow> errno + node option" where
  "create_slot slot =
     (case slot of
        Some (Directory cs) \<Rightarrow> Inl EISDIR
      | Some Irregular \<Rightarrow> Inr (Some Irregular)
      | _ \<Rightarrow> Inr (Some (Regular (Bytes []))))"

definition os_Create :: "world \<Rightarrow> path \<Rightarrow> error + world" where
  "os_Create w p =
     (if OpCreate p \<in> faults w then Inl (PathError (OpCreate p) EIO)
      else case fs_update create_slot (files w) p of
             Inl e \<Rightarrow> Inl (PathError (OpCreate p) e)
           | Inr t \<Rightarrow> Inr (w\<lparr>files := t\<rparr>))"

definition os_Open :: "world \<Rightarrow> path \<Rightarrow> error + node" where
  "os_Open w p =
     (if OpOpen p \<in> faults w then Inl (PathError (OpOpen p) EIO)
      else case fs_lookup (files w) p of
             Inl e \<Rightarrow> Inl (PathError (OpOpen p) e)
           | Inr n \<Rightarrow> Inr n)"

definition io_Copy :: "world \<Rightarrow> path \<Rightarrow> node \<Rightarrow> error + content" where
  "io_Copy w p n =
     (if OpCopy p \<in> faults w then Inl (PathError (OpCopy p) EIO)
      else case n of
             Regular c \<Rightarrow> Inr c
           | Directory cs \<Rightarrow> Inl (PathError (OpCopy p) EISDIR)
           | Irregular \<Rightarrow> Inl (PathError (OpCopy p) EIO))"

text \<open>
  The \<open>zip.Writer\<close> is the list of the entries written so far. \<open>CreateHeader\<close> and
  \<open>Create\<close> start an entry; \<open>Create\<close> uses the method \<open>Deflate\<close>.
\<close>

type_synonym zip_entry = "string \<times> zmethod \<times> content option"

definition zip_CreateHeader :: "world \<Rightarrow> string \<Rightarrow> zmethod \<Rightarrow> error + string \<times> zmethod" where
  "zip_CreateHeader w name method =
     (if OpZipCreate name \<in> faults w then Inl (PathError (OpZipCreate name) EIO)
      else Inr (name, method))"

definition zip_Create :: "world \<Rightarrow> string \<Rightarrow> error + string \<times> zmethod" where
  "zip_Create w name = zip_CreateHeader w name Deflate"

subsection \<open>\<open>FinalizeEPUB\<close>\<close>

text \<open>
  The closure \<open>saveFile\<close>. It captures the processor, \<open>fname\<close>, the archive writer and the
  variable \<open>content\<close>; the writer is passed through, \<open>content\<close> is a parameter, since it is
  assigned once, between the two uses of the closure.
\<close>

definition saveFile ::
  "processor \<Rightarrow> path \<Rightarrow> world \<Rightarrow> bool \<Rightarrow> path \<Rightarrow> error + fileinfo \<Rightarrow> zip_entry list
     \<Rightarrow> error option \<times> zip_entry list" where
  "saveFile p fname w content path info_err epub =
     (case info_err of
        Inl err \<Rightarrow> (Some err, epub)
      | Inr info \<Rightarrow>
          if \<not> fi_IsRegular info then (None, epub)
          else if path = fname then (None, epub)
          else if content \<and> filepath_Dir path = tmpDir p then (None, epub)
          else
            (case filepath_Rel (tmpDir p) path of
               Inl err \<Rightarrow> (Some err, epub)
             | Inr rel \<Rightarrow>
                 (case (if \<not> content then zip_CreateHeader w (fi_Name info) Store
                        else zip_Create w (filepath_ToSlash rel)) of
                    Inl err \<Rightarrow> (Some err, epub)
                  | Inr (name, method) \<Rightarrow>
                      (case os_Open w path of
                         Inl err \<Rightarrow> (Some err, epub @ [(name, method, Some (Bytes []))])
                       | Inr r \<Rightarrow>
                           (case io_Copy w path r of
                              Inl err \<Rightarrow> (Some err, epub @ [(name, method, None)])
                            | Inr c \<Rightarrow> (None, epub @ [(name, method, Some c)]))))))"

text \<open>\<open>filepath.Walk(root, fn)\<close>: the calls of \<open>fn\<close>, in order, until one returns an error.\<close>

definition walk_visits :: "world \<Rightarrow> path \<Rightarrow> (path \<times> (error + fileinfo)) list" where
  "walk_visits w root =
     (if OpLstat root \<in> faults w then [(root, Inl (PathError (OpLstat root) EIO))]
      else case fs_lookup (files w) root of
             Inl e \<Rightarrow> [(root, Inl (PathError (OpLstat root) e))]
           | Inr n \<Rightarrow> walk (faults w) n root)"

fun walk_calls ::
  "(path \<Rightarrow> error + fileinfo \<Rightarrow> zip_entry list \<Rightarrow> error option \<times> zip_entry list)
     \<Rightarrow> (path \<times> (error + fileinfo)) list \<Rightarrow> zip_entry list \<Rightarrow> error option \<times> zip_entry list" where
  "walk_calls fn [] epub = (None, epub)"
| "walk_calls fn ((path, info_err) # vs) epub =
     (case fn path info_err epub of
        (Some err, epub') \<Rightarrow> (Some err, epub')
      | (None, epub') \<Rightarrow> walk_calls fn vs epub')"

definition filepath_Walk ::
  "world \<Rightarrow> path
     \<Rightarrow> (path \<Rightarrow> error + fileinfo \<Rightarrow> zip_entry list \<Rightarrow> error option \<times> zip_entry list)
     \<Rightarrow> zip_entry list \<Rightarrow> error option \<times> zip_entry list" where
  "filepath_Walk w root fn epub = walk_calls fn (walk_visits w root) epub"

text \<open>Lines 92 to 107: the \<open>mimetype\<close> entry first, then the walk over the staging directory.\<close>

definition add_files :: "processor \<Rightarrow> path \<Rightarrow> world \<Rightarrow> error option \<times> zip_entry list" where
  "add_files p fname w =
     (let mt = filepath_Join (tmpDir p) ''mimetype'' in
      case os_Stat w mt of
        Inl err \<Rightarrow> (Some (Wrap ''unable to find mimetype file'' err), [])
      | Inr info \<Rightarrow>
          (case saveFile p fname w False mt (Inr info) [] of
             (Some err, epub) \<Rightarrow> (Some (Wrap ''unable to add mimetype to EPUB'' err), epub)
           | (None, epub) \<Rightarrow>
               (case filepath_Walk w (tmpDir p) (saveFile p fname w True) epub of
                  (Some err, epub') \<Rightarrow> (Some (Wrap ''unable to add file to EPUB'' err), epub')
                | (None, epub') \<Rightarrow> (None, epub'))))"

text \<open>
  The deferred \<open>epub.Close()\<close> and \<open>f.Close()\<close>, which run on every return after the
  output file was created: the file then holds the archive of the entries written.
\<close>

definition write_slot :: "content \<Rightarrow> node option \<Rightarrow> errno + node option" where
  "write_slot c slot =
     (case slot of
        Some (Regular old) \<Rightarrow> Inr (Some (Regular c))
      | other \<Rightarrow> Inr other)"

definition close_epub :: "world \<Rightarrow> path \<Rightarrow> zip_entry list \<Rightarrow> world" where
  "close_epub w fname epub =
     (case fs_update (write_slot (Zip epub)) (files w) fname of
        Inl e \<Rightarrow> w
      | Inr t \<Rightarrow> w\<lparr>files := t\<rparr>)"

text \<open>Lines 32 to 107: everything after the output path has been prepared.\<close>

definition create_and_fill :: "processor \<Rightarrow> path \<Rightarrow> world \<Rightarrow> error option \<times> world" where
  "create_and_fill p fname w =
     (case os_Create w fname of
        Inl err \<Rightarrow> (Some (Wrap ''unable to create EPUB'' err), w)
      | Inr w' \<Rightarrow>
          (case add_files p fname w' of
             (res, epub) \<Rightarrow> (res, close_epub w' fname epub)))"

text \<open>
  Lines 16 to 30: an existing output file is removed when overwriting is allowed, and the
  directory of a missing one is created. The result is the error returned, or the world
  in which the function goes on.
\<close>

definition prepare_output :: "processor \<Rightarrow> path \<Rightarrow> world \<Rightarrow> error + world" where
  "prepare_output p fname w =
     (case os_Stat w fname of
        Inr info \<Rightarrow>
          if \<not> env_Debug p \<and> \<not> overwrite p then Inl (OutputExists fname)
          else
            (case os_Remove w fname of
               Inl err \<Rightarrow> Inl err
             | Inr w' \<Rightarrow> Inr w')
      | Inl err \<Rightarrow>
          if \<not> os_IsNotExist err then Inl err
          else
            (case os_MkdirAll w (filepath_Dir fname) of
               Inl err' \<Rightarrow> Inl (Wrap ''unable to create output directory'' err')
             | Inr w' \<Rightarrow> Inr w'))"

text \<open>The whole function. It returns the error, if any, and the world it leaves behind.\<close>

definition FinalizeEPUB :: "processor \<Rightarrow> path \<Rightarrow> world \<Rightarrow> error option \<times> world" where
  "FinalizeEPUB p fname w =
     (case prepare_output p fname w of
        Inl err \<Rightarrow> (Some err, w)
      | Inr w' \<Rightarrow> create_and_fill p fname w')"

text \<open>The node that a path leads to, if any: what \<open>fs_update\<close> hands to its function.\<close>

definition slot_of :: "node \<Rightarrow> path \<Rightarrow> node option" where
  "slot_of t p = (case fs_lookup t p of Inl e \<Rightarrow> None | Inr n \<Rightarrow> Some n)"

subsection \<open>Example worlds\<close>

text \<open>
  Three file systems. In each the staging directory is \<open>/tmp\<close>: as the converter prepares
  it, beside an older \<open>/book.epub\<close>; with a directory in the place of \<open>mimetype\<close>; and
  without \<open>mimetype\<close>, beside an older \<open>/book.epub\<close>. Then two processors, without and with
  \<open>overwrite\<close>.
\<close>

definition staging :: node where
  "staging = Directory [(''tmp'', Directory
      [(''mimetype'', Regular (Bytes ''application/epub+zip'')),
       (''OEBPS'', Directory [(''b.xhtml'', Regular (Bytes ''B'')), (''a.xhtml'', Regular (Bytes ''A''))]),
       (''META-INF'', Directory [(''container.xml'', Regular (Bytes ''C''))]),
       (''notes.txt'', Regular (Bytes ''N''))]),
     (''book.epub'', Regular (Bytes ''old''))]"

definition staging_mimetype_dir :: node where
  "staging_mimetype_dir = Directory [(''tmp'', Directory
      [(''mimetype'', Directory [(''x'', Regular (Bytes ''X''))])])]"

definition staging_no_mimetype :: node where
  "staging_no_mimetype = Directory
     [(''tmp'', Directory [(''OEBPS'', Directory [(''a.xhtml'', Regular (Bytes ''A''))])]),
      (''book.epub'', Regular (Bytes ''old''))]"

definition conv :: processor where
  "conv = \<lparr>env_Debug = False, overwrite = False, tmpDir = [''tmp'']\<rparr>"

definition conv_overwrite :: processor where
  "conv_overwrite = \<lparr>env_Debug = False, overwrite = True, tmpDir = [''tmp'']\<rparr>"

section \<open>Properties of the template engine\<close>

declare scan_from.simps [simp del] replace_nonempty.simps [simp del] runes_with.simps [simp del]

subsection \<open>Running \<open>ReplaceKeywords\<close>\<close>

text \<open>A result reached within some recursion depth is the result of \<open>ReplaceKeywords\<close>.\<close>

lemma ReplaceKeywords_depth_sound:
  "ReplaceKeywords_depth d s m = Some r \<Longrightarrow> ReplaceKeywords s m = Some r"
proof (induction d arbitrary: s)
  case 0
  then show ?case by simp
next
  case (Suc d)
  obtain bo bc where sc: "scan_brackets s = (bo, bc)"
    by (cases "scan_brackets s")
  show ?case
  proof (cases "bo \<ge> 0 \<and> bc > 0 \<and> bo < bc")
    case True
    with Suc.prems sc have "ReplaceKeywords_depth d
        (take (nat bo) s @ expandAll (take (nat bc - (nat bo + 1)) (drop (nat bo + 1) s)) m
         @ drop (nat bc + 1) s) m = Some r"
      by simp
    then have "ReplaceKeywords
        (take (nat bo) s @ expandAll (take (nat bc - (nat bo + 1)) (drop (nat bo + 1) s)) m
         @ drop (nat bc + 1) s) m = Some r"
      by (rule Suc.IH)
    with True sc show ?thesis
      by (subst ReplaceKeywords.simps) simp
  next
    case False
    with Suc.prems sc show ?thesis
      by (subst ReplaceKeywords.simps) auto
  qed
qed

subsection \<open>What the scan finds\<close>

lemma scan_from_stop: "length s \<le> i \<Longrightarrow> scan_from s i b = (b, - 1)"
  by (subst scan_from.simps [of s i b]) simp

lemma scan_from_open:
  "i < length s \<Longrightarrow> s ! i = CHR ''{'' \<and> unescaped s i \<Longrightarrow>
     scan_from s i b = scan_from s (i + rune_width (drop i s)) (int i)"
  by (subst scan_from.simps [of s i b]) simp

lemma scan_from_close:
  "i < length s \<Longrightarrow> \<not> (s ! i = CHR ''{'' \<and> unescaped s i) \<Longrightarrow> s ! i = CHR ''}'' \<and> unescaped s i \<Longrightarrow>
     scan_from s i b = (b, int i)"
  by (subst scan_from.simps [of s i b]) simp

lemma scan_from_other:
  "i < length s \<Longrightarrow> \<not> (s ! i = CHR ''{'' \<and> unescaped s i) \<Longrightarrow> \<not> (s ! i = CHR ''}'' \<and> unescaped s i) \<Longrightarrow>
     scan_from s i b = scan_from s (i + rune_width (drop i s)) b"
  by (subst scan_from.simps [of s i b]) auto

lemma rune_width_pos: "s \<noteq> [] \<Longrightarrow> 0 < rune_width s"
  by (cases s) (simp_all add: rune_width_def Let_def)

lemma rune_width_tail_bytes:
  assumes "0 < k" and "k < rune_width t"
  shows "(0x80 :: nat) \<le> of_char (t ! k)"
proof (cases t)
  case Nil
  with assms show ?thesis by (simp add: rune_width_def)
next
  case (Cons s0 t')
  have lo: "(0x80 :: nat) \<le> accept_lo s0"
    by (simp add: accept_lo_def Let_def)
  have k: "k = 1 \<or> k = 2 \<or> k = 3 \<or> 4 \<le> k"
    using assms(1) by arith
  from assms(2) Cons lo k show ?thesis
    by (auto simp add: rune_width_def Let_def byte_in_def split: if_splits)
qed

lemma brace_not_tail_byte:
  "(0x80 :: nat) \<le> of_char c \<Longrightarrow> c \<noteq> CHR ''{'' \<and> c \<noteq> CHR ''}''"
  by auto


lemma scan_from_sound:
  "scan_from s i b = (bo, bc) \<Longrightarrow>
     (bc = - 1 \<or> (int i \<le> bc \<and> nat bc < length s \<and> s ! nat bc = CHR ''}'' \<and> unescaped s (nat bc)))
   \<and> (bo = b \<or> (int i \<le> bo \<and> nat bo < length s \<and> s ! nat bo = CHR ''{''
                 \<and> unescaped s (nat bo) \<and> (bc = - 1 \<or> bo < bc)))"
proof (induction s i b arbitrary: bo bc rule: scan_from.induct)
  case (1 s i b)
  show ?case
  proof (cases "length s \<le> i")
    case True
    with "1.prems" show ?thesis by (simp add: scan_from_stop)
  next
    case False
    then have w: "0 < rune_width (drop i s)"
      by (simp add: rune_width_pos)
    show ?thesis
    proof (cases "s ! i = CHR ''{'' \<and> unescaped s i")
      case True
      with False "1.prems" have "scan_from s (i + rune_width (drop i s)) (int i) = (bo, bc)"
        by (simp add: scan_from_open)
      from "1.IH"(1) [OF False True this] False True w show ?thesis
        by auto
    next
      case nopen: False
      show ?thesis
      proof (cases "s ! i = CHR ''}'' \<and> unescaped s i")
        case True
        with False nopen "1.prems" have "bo = b" "bc = int i"
          by (simp_all add: scan_from_close)
        with True False show ?thesis by simp
      next
        case nclose: False
        with False nopen "1.prems" have "scan_from s (i + rune_width (drop i s)) b = (bo, bc)"
          by (simp add: scan_from_other)
        from "1.IH"(2) [OF False nopen nclose this] w show ?thesis
          by auto
      qed
    qed
  qed
qed

lemma scan_from_complete:
  "scan_from s i b = (bo, bc) \<Longrightarrow> i \<le> j \<Longrightarrow> j < length s \<Longrightarrow> bc = - 1 \<or> int j < bc \<Longrightarrow>
     \<not> (s ! j = CHR ''}'' \<and> unescaped s j)
   \<and> (s ! j = CHR ''{'' \<and> unescaped s j \<longrightarrow> int j \<le> bo)"
proof (induction s i b arbitrary: bo bc rule: scan_from.induct)
  case (1 s i b)
  from "1.prems" have False: "\<not> length s \<le> i" by simp
  then have w: "0 < rune_width (drop i s)"
    by (simp add: rune_width_pos)
  have skip: "s ! j \<noteq> CHR ''{'' \<and> s ! j \<noteq> CHR ''}''"
    if "i < j" "j < i + rune_width (drop i s)"
  proof -
    from that have "(0x80 :: nat) \<le> of_char (drop i s ! (j - i))"
      by (intro rune_width_tail_bytes) auto
    moreover from that "1.prems" have "drop i s ! (j - i) = s ! j"
      by simp
    ultimately show ?thesis
      using brace_not_tail_byte by metis
  qed
  show ?case
  proof (cases "s ! i = CHR ''{'' \<and> unescaped s i")
    case True
    with False "1.prems" have rec: "scan_from s (i + rune_width (drop i s)) (int i) = (bo, bc)"
      by (simp add: scan_from_open)
    from scan_from_sound [OF rec] have bo: "int i \<le> bo"
      by auto
    show ?thesis
    proof (cases "j < i + rune_width (drop i s)")
      case near: True
      show ?thesis
      proof (cases "j = i")
        case True
        with bo \<open>s ! i = CHR ''{'' \<and> unescaped s i\<close> show ?thesis by simp
      next
        case False
        with "1.prems"(2) near skip show ?thesis by simp
      qed
    next
      case far: False
      then have "i + rune_width (drop i s) \<le> j" by simp
      from "1.IH"(1) [OF False True rec this "1.prems"(3,4)] show ?thesis .
    qed
  next
    case nopen: False
    show ?thesis
    proof (cases "s ! i = CHR ''}'' \<and> unescaped s i")
      case True
      with False nopen "1.prems" have "bc = int i"
        by (simp add: scan_from_close)
      with "1.prems" show ?thesis by simp
    next
      case nclose: False
      with False nopen "1.prems" have rec: "scan_from s (i + rune_width (drop i s)) b = (bo, bc)"
        by (simp add: scan_from_other)
      show ?thesis
      proof (cases "j < i + rune_width (drop i s)")
        case near: True
        show ?thesis
        proof (cases "j = i")
          case True
          with nopen nclose show ?thesis by blast
        next
          case False
          with "1.prems"(2) near skip show ?thesis by simp
        qed
      next
        case far: False
        then have "i + rune_width (drop i s) \<le> j" by simp
        from "1.IH"(2) [OF False nopen nclose rec this "1.prems"(3,4)] show ?thesis .
      qed
    qed
  qed
qed

lemma scan_brackets_sound:
  assumes "scan_brackets s = (bo, bc)"
  shows "bc = - 1 \<or> (0 \<le> bc \<and> nat bc < length s \<and> s ! nat bc = CHR ''}'' \<and> unescaped s (nat bc))"
    and "bo = - 1 \<or> (0 \<le> bo \<and> nat bo < length s \<and> s ! nat bo = CHR ''{''
                 \<and> unescaped s (nat bo) \<and> (bc = - 1 \<or> bo < bc))"
  using scan_from_sound [of s 0 "- 1" bo bc] assms
  by (auto simp add: scan_brackets_def)

lemma scan_brackets_pair:
  assumes fc: "first_close s j" and lo: "last_open_before s i j"
  shows "scan_brackets s = (int i, int j)"
proof -
  obtain bo bc where sc: "scan_brackets s = (bo, bc)"
    by (cases "scan_brackets s")
  then have sf: "scan_from s 0 (- 1) = (bo, bc)"
    by (simp add: scan_brackets_def)
  from fc have j: "j < length s" "s ! j = CHR ''}''" "unescaped s j"
    and jmin: "\<And>k. k < j \<Longrightarrow> \<not> (s ! k = CHR ''}'' \<and> unescaped s k)"
    by (simp_all add: first_close_def)
  from lo have i: "i < j" "s ! i = CHR ''{''" "unescaped s i"
    and imax: "\<And>k. i < k \<Longrightarrow> k < j \<Longrightarrow> \<not> (s ! k = CHR ''{'' \<and> unescaped s k)"
    by (simp_all add: last_open_before_def)
  have "\<not> (bc = - 1 \<or> int j < bc)"
    using scan_from_complete [OF sf _ j(1), of] j by auto
  then have bc1: "bc \<noteq> - 1" "bc \<le> int j" by auto
  with scan_brackets_sound(1) [OF sc]
  have bcs: "0 \<le> bc" "s ! nat bc = CHR ''}''" "unescaped s (nat bc)" by auto
  have "\<not> nat bc < j" using jmin [of "nat bc"] bcs by auto
  with bc1 bcs have bc: "bc = int j" by auto
  have "int i \<le> bo"
    using scan_from_complete [OF sf _ _ , of i] i j bc by auto
  with scan_brackets_sound(2) [OF sc] bc
  have bos: "0 \<le> bo" "s ! nat bo = CHR ''{''" "unescaped s (nat bo)" "bo < int j" by auto
  from bos have "nat bo < j" by linarith
  with imax [of "nat bo"] bos have "\<not> i < nat bo" by auto
  with \<open>int i \<le> bo\<close> have "bo = int i" by auto
  with bc sc show ?thesis by simp
qed

lemma ReplaceKeywords_pair:
  assumes "scan_brackets s = (int i, int j)" and "i < j"
  shows "ReplaceKeywords s m =
         ReplaceKeywords (take i s @ expandAll (take (j - (i + 1)) (drop (i + 1) s)) m @ drop (j + 1) s) m"
  using assms by (subst ReplaceKeywords.simps) simp

lemma ReplaceKeywords_flat:
  assumes "scan_brackets s = (bo, bc)" and "\<not> (0 \<le> bo \<and> 0 < bc \<and> bo < bc)"
  shows "ReplaceKeywords s m = Some (expandAll s m)"
  using assms by (subst ReplaceKeywords.simps) auto

subsection \<open>Occurrences of keys and of brackets\<close>

lemma strings_Index_range: "strings_Index s k = - 1 \<or> 0 \<le> strings_Index s k"
  by (induction s) (auto simp add: Let_def)

lemma strings_Index_sublist: "strings_Index s k \<noteq> - 1 \<longleftrightarrow> sublist k s"
proof (induction s)
  case Nil
  then show ?case by simp
next
  case (Cons c cs)
  from strings_Index_range [of cs k] Cons show ?case
    by (auto simp add: Let_def sublist_Cons_right)
qed

lemma expand_loop_no_key:
  "\<forall>k \<in> set ks. \<not> sublist k s \<Longrightarrow> expand_loop m ks s e = (s, e)"
  by (induction ks) (simp_all add: expandKeyword_def strings_Index_sublist)

lemma expandAll_no_key:
  assumes "\<forall>k \<in> fst ` set m. \<not> sublist k s"
  shows "expandAll s m = []"
proof -
  have "set (rev (sorted_keys m)) = fst ` set m"
    by (simp add: sorted_keys_def)
  with assms have "expand_loop m (rev (sorted_keys m)) s False = (s, False)"
    by (intro expand_loop_no_key) simp
  then show ?thesis by (simp add: expandAll_def)
qed

lemma no_pair_flat:
  assumes "\<not> bracket_pair s"
  shows "ReplaceKeywords s m = Some (expandAll s m)"
proof -
  obtain bo bc where sc: "scan_brackets s = (bo, bc)"
    by (cases "scan_brackets s")
  have "\<not> (0 \<le> bo \<and> 0 < bc \<and> bo < bc)"
  proof
    assume a: "0 \<le> bo \<and> 0 < bc \<and> bo < bc"
    with scan_brackets_sound [OF sc]
    have "nat bo < nat bc \<and> nat bc < length s \<and> s ! nat bo = CHR ''{'' \<and> unescaped s (nat bo)
          \<and> s ! nat bc = CHR ''}'' \<and> unescaped s (nat bc)"
      by auto
    with assms show False
      unfolding bracket_pair_def by blast
  qed
  with sc show ?thesis by (rule ReplaceKeywords_flat)
qed
















subsection \<open>The claims about \<open>ReplaceKeywords\<close>\<close>

text \<open>
  C1. The pattern \<open>a{#x}b\<close> with \<open>#x\<close> mapped to \<open>Y\<close>: the block is resolved to \<open>Y\<close>
  and the function calls itself on \<open>aYb\<close>; that string has no bracket pair and no key
  occurs in it, so the last \<open>expandAll\<close> returns the empty string, not \<open>aYb\<close>.
\<close>

theorem C1_block_with_value_returns_empty:
  "ReplaceKeywords ''a{#x}b'' [(''#x'', ''Y'')] = Some []"
  by (rule ReplaceKeywords_depth_sound [of 2]) code_simp

text \<open>
  C2. The pattern \<open>a{#x}b\<close> with \<open>#x\<close> mapped to the empty string: the block is
  removed and the function calls itself on \<open>ab\<close>, where no key occurs, so the result is
  the empty string, not \<open>ab\<close>.
\<close>

theorem C2_block_with_empty_value_returns_empty:
  "ReplaceKeywords ''a{#x}b'' [(''#x'', [])] = Some []"
  by (rule ReplaceKeywords_depth_sound [of 2]) code_simp




text \<open>
  C4, as amended. The brackets that the scan takes as delimiters are never preceded by a
  backslash; the backslashes stay in the string: the pattern \<open>\{#x\}\<close> with \<open>#x\<close> mapped
  to \<open>Y\<close> gives \<open>\{Y\}\<close>.
\<close>

theorem C4_escaped_bracket_is_no_delimiter:
  assumes "scan_brackets s = (bopen, bclose)"
  shows "(0 \<le> bopen \<longrightarrow> s ! nat bopen = CHR ''{'' \<and> unescaped s (nat bopen))
       \<and> (0 \<le> bclose \<longrightarrow> s ! nat bclose = CHR ''}'' \<and> unescaped s (nat bclose))
       \<and> ReplaceKeywords (CHR 0x5C # ''{#x'' @ CHR 0x5C # ''}'') [(''#x'', ''Y'')]
           = Some (CHR 0x5C # ''{Y'' @ CHR 0x5C # ''}'')"
proof -
  have "ReplaceKeywords (CHR 0x5C # ''{#x'' @ CHR 0x5C # ''}'') [(''#x'', ''Y'')]
           = Some (CHR 0x5C # ''{Y'' @ CHR 0x5C # ''}'')"
    by (rule ReplaceKeywords_depth_sound [of 1]) code_simp
  with scan_brackets_sound [OF assms] show ?thesis
    by auto
qed

theorem C4_escaped_bracket_is_no_delimiter_witness:
  "scan_brackets (CHR 0x5C # ''{a{b}'') = (3, 5)
   \<and> (CHR 0x5C # ''{a{b}'') ! nat 3 = CHR ''{'' \<and> unescaped (CHR 0x5C # ''{a{b}'') (nat 3)
   \<and> (CHR 0x5C # ''{a{b}'') ! nat 5 = CHR ''}'' \<and> unescaped (CHR 0x5C # ''{a{b}'') (nat 5)"
proof -
  have h: "scan_brackets (CHR 0x5C # ''{a{b}'') = (3, 5)"
    by code_simp
  from C4_escaped_bracket_is_no_delimiter [OF h] h show ?thesis
    by simp
qed

text \<open>
  C4 as stated fails: for the pattern \<open>\{literal\}\<close> and the empty mapping the result is
  the empty string.
\<close>

theorem C4_escaped_literal_counterexample:
  "ReplaceKeywords (CHR 0x5C # ''{literal'' @ CHR 0x5C # ''}'') [] = Some []
   \<and> ReplaceKeywords (CHR 0x5C # ''{literal'' @ CHR 0x5C # ''}'') [] \<noteq> Some ''{literal}''"
proof -
  have "ReplaceKeywords (CHR 0x5C # ''{literal'' @ CHR 0x5C # ''}'') [] = Some []"
    by (rule ReplaceKeywords_depth_sound [of 1]) code_simp
  then show ?thesis by simp
qed

text \<open>
  C5, as amended. When the first unescaped \<open>}\<close> of the pattern is at \<open>j\<close> and the last
  unescaped \<open>{\<close> before it is at \<open>i\<close>, the scan returns \<open>bopen = i\<close> and \<open>bclose = j\<close>, and
  \<open>ReplaceKeywords\<close> continues with \<open>in[:i] + expandAll(in[i+1:j]) + in[j+1:]\<close>.
\<close>

theorem C5_region_resolved_first:
  assumes "first_close s j" and "last_open_before s i j"
  shows "scan_brackets s = (int i, int j)
       \<and> ReplaceKeywords s m =
         ReplaceKeywords (take i s @ expandAll (take (j - (i + 1)) (drop (i + 1) s)) m @ drop (j + 1) s) m"
proof -
  have sc: "scan_brackets s = (int i, int j)"
    using assms by (rule scan_brackets_pair)
  moreover from assms(2) have "i < j" by (simp add: last_open_before_def)
  ultimately show ?thesis using ReplaceKeywords_pair by blast
qed

theorem C5_region_resolved_first_witness:
  "first_close ''{a{b}c}'' 4 \<and> last_open_before ''{a{b}c}'' 2 4
   \<and> scan_brackets ''{a{b}c}'' = (2, 4)
   \<and> ReplaceKeywords ''{a{b}c}'' [] = ReplaceKeywords ''{ac}'' []"
proof -
  have h1: "first_close ''{a{b}c}'' 4" by code_simp
  have h2: "last_open_before ''{a{b}c}'' 2 4" by code_simp
  have e: "expandAll ''b'' [] = []" by code_simp
  from C5_region_resolved_first [OF h1 h2, of "[]"] h1 h2 e show ?thesis
    by simp
qed

text \<open>
  C5 as stated fails: in \<open>{a{b}c}\<close> the first unescaped \<open>{\<close> is at index 0 and the first
  unescaped \<open>}\<close> after it at index 4, but the scan returns \<open>bopen = 2\<close>, the last \<open>{\<close> before
  that \<open>}\<close>.
\<close>

theorem C5_first_open_counterexample:
  "spec_bopen ''{a{b}c}'' = Some 0 \<and> spec_bclose ''{a{b}c}'' 0 = Some 4
   \<and> scan_brackets ''{a{b}c}'' = (2, 4)"
  by code_simp



text \<open>
  C10. A pattern without a bracket pair, in which no key of the mapping occurs, gives the
  empty string: the scan finds no pair, \<open>expandAll\<close> is applied to the whole pattern, no
  key is found and \<open>expanded\<close> stays false. The empty mapping is one such mapping.
\<close>

theorem C10_no_key_gives_empty:
  assumes "\<not> bracket_pair s" and "\<forall>k \<in> fst ` set m. \<not> sublist k s"
  shows "ReplaceKeywords s m = Some []"
  using no_pair_flat [OF assms(1)] expandAll_no_key [OF assms(2)] by simp

theorem C10_no_key_gives_empty_witness:
  "\<not> bracket_pair ''plain text'' \<and> \<not> sublist ''#title'' ''plain text''
   \<and> ReplaceKeywords ''plain text'' [(''#title'', ''T'')] = Some []"
proof -
  have h1: "\<not> bracket_pair ''plain text''" by code_simp
  have h2: "\<forall>k \<in> fst ` set [(''#title'', ''T'')]. \<not> sublist k ''plain text''" by code_simp
  from C10_no_key_gives_empty [OF h1 h2] h1 h2 show ?thesis
    by simp
qed

section \<open>Properties of the archive finalizer\<close>

subsection \<open>The tree\<close>

lemma fs_lookup_append:
  "fs_lookup t (p @ r) = (case fs_lookup t p of Inl e \<Rightarrow> Inl e | Inr n \<Rightarrow> fs_lookup n r)"
  by (induction t p rule: fs_lookup.induct) (simp_all split: option.splits)

lemma strict_prefix_split:
  assumes "strict_prefix q p"
  obtains x xs where "p = q @ x # xs"
proof -
  from assms obtain r where "p = q @ r" and "r \<noteq> []"
    by (auto simp add: strict_prefix_def prefix_def)
  then show ?thesis using that by (cases r) auto
qed

lemma fs_lookup_below:
  assumes "fs_lookup t q = Inr n" and "\<And>cs. n \<noteq> Directory cs" and "strict_prefix q p"
  shows "fs_lookup t p = Inl ENOTDIR"
proof -
  from assms(3) obtain x xs where "p = q @ x # xs" by (rule strict_prefix_split)
  with assms(1,2) show ?thesis by (cases n) (auto simp add: fs_lookup_append)
qed

lemma fs_lookup_above:
  assumes "fs_lookup t p = Inr n" and "strict_prefix q p"
  shows "\<exists>cs. fs_lookup t q = Inr (Directory cs)"
proof -
  from assms(2) obtain x xs where p: "p = q @ x # xs" by (rule strict_prefix_split)
  show ?thesis
  proof (cases "fs_lookup t q")
    case (Inl e)
    with assms(1) p show ?thesis by (simp add: fs_lookup_append)
  next
    case (Inr k)
    with assms(1) p show ?thesis by (cases k) (simp_all add: fs_lookup_append)
  qed
qed

lemma fs_update_frame:
  "fs_update f t p = Inr t' \<Longrightarrow> \<not> prefix p q \<Longrightarrow> \<not> prefix q p \<Longrightarrow> fs_lookup t' q = fs_lookup t q"
proof (induction f t p arbitrary: t' q rule: fs_update.induct)
  case (2 f cs x)
  then show ?case
    by (cases q) (auto simp add: update_conv' delete_conv' split: sum.splits option.splits)
next
  case (3 f cs x y ys)
  show ?case
  proof (cases q)
    case Nil
    with "3.prems" show ?thesis by simp
  next
    case (Cons z zs)
    show ?thesis
    proof (cases "z = x")
      case True
      with "3.prems" Cons have np: "\<not> prefix (y # ys) zs" "\<not> prefix zs (y # ys)" by simp_all
      from "3.prems"(1) obtain c c' where c: "map_of cs x = Some c"
        and u: "fs_update f c (y # ys) = Inr c'" and t': "t' = Directory (AList.update x c' cs)"
        by (auto split: option.splits sum.splits)
      from "3.IH" [OF c u np] True Cons c t' show ?thesis
        by (simp add: update_conv')
    next
      case False
      with "3.prems" Cons show ?thesis
        by (auto simp add: update_conv' split: option.splits sum.splits)
    qed
  qed
qed simp_all

lemma fs_update_result:
  "fs_update f t p = Inr t' \<Longrightarrow>
     \<exists>r. f (slot_of t p) = Inr r
        \<and> fs_lookup t' p = (case r of None \<Rightarrow> Inl ENOENT | Some n \<Rightarrow> Inr n)"
proof (induction f t p arbitrary: t' rule: fs_update.induct)
  case (2 f cs x)
  then show ?case
    by (auto simp add: slot_of_def update_conv' delete_conv' split: sum.splits option.splits)
next
  case (3 f cs x y ys)
  from "3.prems"(1) obtain c c' where c: "map_of cs x = Some c"
    and u: "fs_update f c (y # ys) = Inr c'" and t': "t' = Directory (AList.update x c' cs)"
    by (auto split: option.splits sum.splits)
  from "3.IH" [OF c u] c t' show ?case
    by (simp add: slot_of_def update_conv')
qed simp_all

lemma fs_update_possible:
  "fs_lookup t p = Inr n \<Longrightarrow> p \<noteq> [] \<Longrightarrow> f (Some n) = Inr r \<Longrightarrow> \<exists>t'. fs_update f t p = Inr t'"
proof (induction f t p rule: fs_update.induct)
  case (2 f cs x)
  then show ?case by (auto split: option.splits)
next
  case (3 f cs x y ys)
  then show ?case by (auto split: option.splits)
qed simp_all

lemma fs_mkdirall_frame:
  "fs_mkdirall t d = Inr t' \<Longrightarrow> \<not> prefix q d \<Longrightarrow> fs_lookup t' q = fs_lookup t q"
proof (induction t d arbitrary: t' q rule: fs_mkdirall.induct)
  case (3 cs x xs)
  let ?c = "case map_of cs x of None \<Rightarrow> Directory [] | Some c \<Rightarrow> c"
  from "3.prems"(1) obtain c' where u: "fs_mkdirall ?c xs = Inr c'"
    and t': "t' = Directory (AList.update x c' cs)"
    by (auto split: sum.splits)
  show ?case
  proof (cases q)
    case Nil
    with "3.prems" show ?thesis by simp
  next
    case (Cons z zs)
    show ?thesis
    proof (cases "z = x")
      case True
      with "3.prems" Cons have np: "\<not> prefix zs xs" by simp
      from "3.IH" [OF u np] have "fs_lookup c' zs = fs_lookup ?c zs" .
      moreover have "fs_lookup (Directory []) zs = Inl ENOENT" if "map_of cs x = None"
        using np by (cases zs) auto
      ultimately show ?thesis using True Cons t'
        by (auto simp add: update_conv' split: option.splits)
    next
      case False
      with Cons t' show ?thesis
        by (simp add: update_conv')
    qed
  qed
qed simp_all

lemma fs_update_above:
  "fs_update f t p = Inr t' \<Longrightarrow> strict_prefix q p \<Longrightarrow> \<exists>cs. fs_lookup t q = Inr (Directory cs)"
proof (induction f t p arbitrary: t' q rule: fs_update.induct)
  case (2 f cs x)
  then show ?case by (cases q) auto
next
  case (3 f cs x y ys)
  show ?case
  proof (cases q)
    case Nil
    then show ?thesis by simp
  next
    case (Cons z zs)
    with "3.prems"(2) have z: "z = x" and sp: "strict_prefix zs (y # ys)" by auto
    from "3.prems"(1) obtain c c' where c: "map_of cs x = Some c"
      and u: "fs_update f c (y # ys) = Inr c'"
      by (auto split: option.splits sum.splits)
    from "3.IH" [OF c u sp] c z Cons show ?thesis by simp
  qed
qed simp_all

subsection \<open>The steps of \<open>FinalizeEPUB\<close>\<close>

lemma stat_found:
  "os_Stat w q = Inr info \<Longrightarrow> \<exists>n. fs_lookup (files w) q = Inr n \<and> info = file_info q n"
  by (auto simp add: os_Stat_def split: if_splits sum.splits)

lemma stat_not_exist:
  "os_Stat w q = Inl err \<Longrightarrow> os_IsNotExist err \<Longrightarrow> fs_lookup (files w) q = Inl ENOENT"
  by (auto simp add: os_Stat_def split: if_splits sum.splits)

lemma stat_missing:
  "isl (fs_lookup (files w) q) \<Longrightarrow> \<exists>e. os_Stat w q = Inl (PathError (OpStat q) e)"
  by (cases "fs_lookup (files w) q") (auto simp add: os_Stat_def)

lemma remove_effect:
  assumes "os_Remove w fname = Inr w1"
  shows "faults w1 = faults w"
    and "fs_lookup (files w1) fname = Inl ENOENT"
    and "\<not> prefix fname q \<Longrightarrow> \<not> prefix q fname \<Longrightarrow> fs_lookup (files w1) q = fs_lookup (files w) q"
    and "strict_prefix fname q \<Longrightarrow> isl (fs_lookup (files w) q)"
proof -
  from assms obtain t1 where u: "fs_update remove_slot (files w) fname = Inr t1"
    and w1: "w1 = w\<lparr>files := t1\<rparr>"
    by (auto simp add: os_Remove_def split: if_splits sum.splits)
  from w1 show "faults w1 = faults w" by simp
  from fs_update_result [OF u] obtain r where r: "remove_slot (slot_of (files w) fname) = Inr r"
    and l: "fs_lookup t1 fname = (case r of None \<Rightarrow> Inl ENOENT | Some n \<Rightarrow> Inr n)"
    by blast
  from r have "r = None"
    by (auto simp add: remove_slot_def split: option.splits node.splits list.splits)
  with l w1 show "fs_lookup (files w1) fname = Inl ENOENT" by simp
  show "fs_lookup (files w1) q = fs_lookup (files w) q" if "\<not> prefix fname q" "\<not> prefix q fname"
    using fs_update_frame [OF u that] w1 by simp
  show "isl (fs_lookup (files w) q)" if "strict_prefix fname q"
  proof -
    from that obtain x xs where q: "q = fname @ x # xs" by (rule strict_prefix_split)
    from r obtain n where n: "fs_lookup (files w) fname = Inr n" and ne: "\<And>c cs. n \<noteq> Directory (c # cs)"
      by (auto simp add: remove_slot_def slot_of_def split: option.splits node.splits list.splits sum.splits)
    show ?thesis
    proof (cases n)
      case (Directory cs)
      with ne have "cs = []" by (cases cs) auto
      with n q Directory show ?thesis by (simp add: fs_lookup_append)
    qed (use n q in \<open>simp_all add: fs_lookup_append\<close>)
  qed
qed

lemma mkdirall_effect:
  assumes "os_MkdirAll w d = Inr w1"
  shows "faults w1 = faults w"
    and "\<not> prefix q d \<Longrightarrow> fs_lookup (files w1) q = fs_lookup (files w) q"
proof -
  from assms obtain t1 where u: "fs_mkdirall (files w) d = Inr t1" and w1: "w1 = w\<lparr>files := t1\<rparr>"
    by (auto simp add: os_MkdirAll_def split: if_splits sum.splits)
  from w1 show "faults w1 = faults w" by simp
  show "fs_lookup (files w1) q = fs_lookup (files w) q" if "\<not> prefix q d"
    using fs_mkdirall_frame [OF u that] w1 by simp
qed

lemma create_effect:
  assumes "os_Create w fname = Inr w2"
  shows "faults w2 = faults w"
    and "fname \<noteq> []"
    and "fs_lookup (files w) fname = Inl ENOENT \<Longrightarrow> fs_lookup (files w2) fname = Inr (Regular (Bytes []))"
    and "\<not> prefix fname q \<Longrightarrow> \<not> prefix q fname \<Longrightarrow> fs_lookup (files w2) q = fs_lookup (files w) q"
    and "strict_prefix q fname \<Longrightarrow> \<exists>cs. fs_lookup (files w) q = Inr (Directory cs)"
proof -
  from assms obtain t2 where u: "fs_update create_slot (files w) fname = Inr t2"
    and w2: "w2 = w\<lparr>files := t2\<rparr>"
    by (auto simp add: os_Create_def split: if_splits sum.splits)
  from w2 show "faults w2 = faults w" by simp
  from u show "fname \<noteq> []" by auto
  from fs_update_result [OF u] obtain r where r: "create_slot (slot_of (files w) fname) = Inr r"
    and l: "fs_lookup t2 fname = (case r of None \<Rightarrow> Inl ENOENT | Some n \<Rightarrow> Inr n)"
    by blast
  show "fs_lookup (files w2) fname = Inr (Regular (Bytes []))" if "fs_lookup (files w) fname = Inl ENOENT"
    using that r l w2 by (auto simp add: slot_of_def create_slot_def)
  show "fs_lookup (files w2) q = fs_lookup (files w) q" if "\<not> prefix fname q" "\<not> prefix q fname"
    using fs_update_frame [OF u that] w2 by simp
  show "\<exists>cs. fs_lookup (files w) q = Inr (Directory cs)" if "strict_prefix q fname"
    using fs_update_above [OF u that] .
qed

lemma prepare_effect:
  assumes "prepare_output p fname w = Inr w1"
  shows "faults w1 = faults w" and "fs_lookup (files w1) fname = Inl ENOENT"
proof -
  have "faults w1 = faults w \<and> fs_lookup (files w1) fname = Inl ENOENT"
  proof (cases "os_Stat w fname")
    case (Inr info)
    with assms have "os_Remove w fname = Inr w1"
      by (auto simp add: prepare_output_def split: if_splits sum.splits)
    from remove_effect(1,2) [OF this] show ?thesis by simp
  next
    case (Inl err)
    with assms have ne: "os_IsNotExist err" and mk: "os_MkdirAll w (filepath_Dir fname) = Inr w1"
      by (auto simp add: prepare_output_def split: if_splits sum.splits)
    from stat_not_exist [OF Inl ne] have l: "fs_lookup (files w) fname = Inl ENOENT" .
    then have "fname \<noteq> []" by auto
    then have "length (butlast fname) < length fname" by simp
    then have "\<not> prefix fname (filepath_Dir fname)"
      unfolding filepath_Dir_def using prefix_length_le [of fname "butlast fname"] by linarith
    from mkdirall_effect [OF mk] this l show ?thesis by simp
  qed
  then show "faults w1 = faults w" and "fs_lookup (files w1) fname = Inl ENOENT" by simp_all
qed

lemma prefix_Dir: "prefix q (filepath_Dir fname) \<Longrightarrow> fname \<noteq> [] \<Longrightarrow> strict_prefix q fname"
proof -
  assume a: "prefix q (filepath_Dir fname)" and b: "fname \<noteq> []"
  from b have "fname = butlast fname @ [last fname]" by simp
  then have "strict_prefix (butlast fname) fname"
    by (metis append_Nil2 list.distinct(1) prefixI same_append_eq strict_prefixI)
  with a show ?thesis by (auto simp add: filepath_Dir_def)
qed

lemma prepare_keeps_file:
  assumes prep: "prepare_output p fname w = Inr w1"
    and reg: "fs_lookup (files w) q = Inr (Regular d)" and ne: "fname \<noteq> q"
  shows "fs_lookup (files w1) q = Inr (Regular d)"
proof (cases "os_Stat w fname")
  case (Inr info)
  with prep have rm: "os_Remove w fname = Inr w1"
    by (auto simp add: prepare_output_def split: if_splits sum.splits)
  from stat_found [OF Inr] obtain n where n: "fs_lookup (files w) fname = Inr n" by blast
  have "\<not> prefix fname q"
  proof
    assume "prefix fname q"
    with ne have "strict_prefix fname q" by (simp add: strict_prefix_def)
    from remove_effect(4) [OF rm this] reg show False by simp
  qed
  moreover have "\<not> prefix q fname"
  proof
    assume "prefix q fname"
    with ne have "strict_prefix q fname" by (auto simp add: strict_prefix_def)
    from fs_lookup_below [OF reg _ this] n show False by simp
  qed
  ultimately show ?thesis using remove_effect(3) [OF rm] reg by simp
next
  case (Inl err)
  with prep have nex: "os_IsNotExist err" and mk: "os_MkdirAll w (filepath_Dir fname) = Inr w1"
    by (auto simp add: prepare_output_def split: if_splits sum.splits)
  from stat_not_exist [OF Inl nex] have l: "fs_lookup (files w) fname = Inl ENOENT" .
  then have fne: "fname \<noteq> []" by auto
  have "\<not> prefix q (filepath_Dir fname)"
  proof
    assume "prefix q (filepath_Dir fname)"
    then have "strict_prefix q fname" using fne by (rule prefix_Dir)
    from fs_lookup_below [OF reg _ this] l show False by simp
  qed
  from mkdirall_effect(2) [OF mk this] reg show ?thesis by simp
qed

lemma prepare_keeps_missing:
  assumes prep: "prepare_output p fname w = Inr w1"
    and mis: "isl (fs_lookup (files w) q)" and np: "\<not> prefix q fname"
  shows "isl (fs_lookup (files w1) q)"
proof (cases "os_Stat w fname")
  case (Inr info)
  with prep have rm: "os_Remove w fname = Inr w1"
    by (auto simp add: prepare_output_def split: if_splits sum.splits)
  show ?thesis
  proof (cases "prefix fname q")
    case True
    then obtain r where "q = fname @ r" by (auto simp add: prefix_def)
    with remove_effect(2) [OF rm] show ?thesis by (simp add: fs_lookup_append)
  next
    case False
    from remove_effect(3) [OF rm False np] mis show ?thesis by simp
  qed
next
  case (Inl err)
  with prep have nex: "os_IsNotExist err" and mk: "os_MkdirAll w (filepath_Dir fname) = Inr w1"
    by (auto simp add: prepare_output_def split: if_splits sum.splits)
  from stat_not_exist [OF Inl nex] have "fname \<noteq> []" by auto
  with np have "\<not> prefix q (filepath_Dir fname)"
    using prefix_Dir by (auto simp add: strict_prefix_def)
  from mkdirall_effect(2) [OF mk this] mis show ?thesis by simp
qed

lemma create_keeps_file:
  assumes cr: "os_Create w fname = Inr w2" and fresh: "fs_lookup (files w) fname = Inl ENOENT"
    and reg: "fs_lookup (files w) q = Inr (Regular d)"
  shows "fs_lookup (files w2) q = Inr (Regular d)"
proof -
  from fresh reg have ne: "fname \<noteq> q" by auto
  have "\<not> prefix fname q"
  proof
    assume "prefix fname q"
    with ne have "strict_prefix fname q" by (simp add: strict_prefix_def)
    from fs_lookup_above [OF reg this] fresh show False by simp
  qed
  moreover have "\<not> prefix q fname"
  proof
    assume "prefix q fname"
    with ne have "strict_prefix q fname" by (auto simp add: strict_prefix_def)
    from create_effect(5) [OF cr this] reg show False by simp
  qed
  ultimately show ?thesis using create_effect(4) [OF cr] reg by simp
qed

lemma create_keeps_missing:
  assumes cr: "os_Create w fname = Inr w2" and fresh: "fs_lookup (files w) fname = Inl ENOENT"
    and mis: "isl (fs_lookup (files w) q)" and np: "\<not> prefix q fname"
  shows "isl (fs_lookup (files w2) q)"
proof (cases "prefix fname q")
  case True
  with np have "strict_prefix fname q" by (auto simp add: strict_prefix_def)
  from fs_lookup_below [OF create_effect(3) [OF cr fresh] _ this] show ?thesis by simp
next
  case False
  from create_effect(4) [OF cr False np] mis show ?thesis by simp
qed

lemma saveFile_content_appends:
  "saveFile p fname w True path ie z = (r, z') \<Longrightarrow>
     \<exists>rest. z' = z @ rest \<and> (\<forall>e \<in> set rest. fst (snd e) = Deflate)"
  by (auto simp add: saveFile_def zip_Create_def zip_CreateHeader_def
      split: sum.splits if_splits prod.splits)

lemma walk_calls_appends:
  "walk_calls (saveFile p fname w True) vs z = (r, z') \<Longrightarrow>
     \<exists>rest. z' = z @ rest \<and> (\<forall>e \<in> set rest. fst (snd e) = Deflate)"
proof (induction vs arbitrary: z)
  case Nil
  then show ?case by simp
next
  case (Cons v vs)
  obtain path ie where v: "v = (path, ie)" by (cases v)
  obtain r1 z1 where s: "saveFile p fname w True path ie z = (r1, z1)"
    by (cases "saveFile p fname w True path ie z")
  from saveFile_content_appends [OF s] obtain rest1
    where z1: "z1 = z @ rest1" and d1: "\<forall>e \<in> set rest1. fst (snd e) = Deflate"
    by blast
  show ?case
  proof (cases r1)
    case None
    with Cons.prems v s have "walk_calls (saveFile p fname w True) vs z1 = (r, z')" by simp
    from Cons.IH [OF this] obtain rest2
      where "z' = z1 @ rest2" and "\<forall>e \<in> set rest2. fst (snd e) = Deflate"
      by blast
    with z1 d1 have "z' = z @ (rest1 @ rest2) \<and> (\<forall>e \<in> set (rest1 @ rest2). fst (snd e) = Deflate)"
      by auto
    then show ?thesis by blast
  next
    case (Some err)
    with Cons.prems v s have "z' = z1" by simp
    with z1 d1 show ?thesis by blast
  qed
qed

lemma saveFile_anchor:
  assumes "saveFile p fname w False path (Inr info) [] = (None, z)"
    and "fi_IsRegular info" and "path \<noteq> fname"
    and "fs_lookup (files w) path = Inr (Regular d)"
  shows "z = [(fi_Name info, Store, Some d)]"
  using assms
  by (auto simp add: saveFile_def zip_CreateHeader_def os_Open_def io_Copy_def
      split: sum.splits if_splits prod.splits)

lemma add_files_anchor_first:
  assumes ok: "add_files p fname w = (None, epub)"
    and reg: "fs_lookup (files w) (filepath_Join (tmpDir p) ''mimetype'') = Inr (Regular d)"
    and ne: "fname \<noteq> filepath_Join (tmpDir p) ''mimetype''"
  shows "\<exists>rest. epub = (''mimetype'', Store, Some d) # rest \<and> (\<forall>e \<in> set rest. fst (snd e) = Deflate)"
proof -
  let ?mt = "filepath_Join (tmpDir p) ''mimetype''"
  from ok obtain info where st: "os_Stat w ?mt = Inr info"
    by (cases "os_Stat w ?mt") (auto simp add: add_files_def)
  from stat_found [OF st] reg have info: "info = file_info ?mt (Regular d)" by auto
  then have ir: "fi_IsRegular info" and nm: "fi_Name info = ''mimetype''"
    by (simp_all add: file_info_def filepath_Base_def filepath_Join_def)
  obtain r0 z0 where s0: "saveFile p fname w False ?mt (Inr info) [] = (r0, z0)"
    by (cases "saveFile p fname w False ?mt (Inr info) []")
  with ok st have r0: "r0 = None"
    by (cases r0) (auto simp add: add_files_def Let_def)
  from saveFile_anchor [OF s0 [unfolded r0] ir _ reg] ne nm
  have z0: "z0 = [(''mimetype'', Store, Some d)]" by auto
  from ok st s0 r0 have "\<exists>r. filepath_Walk w (tmpDir p) (saveFile p fname w True) z0 = (r, epub)"
    by (auto simp add: add_files_def Let_def split: prod.splits option.splits)
  then obtain r where "walk_calls (saveFile p fname w True) (walk_visits w (tmpDir p)) z0 = (r, epub)"
    by (auto simp add: filepath_Walk_def)
  from walk_calls_appends [OF this] z0 show ?thesis by auto
qed

lemma add_files_no_mimetype:
  assumes "isl (fs_lookup (files w) (filepath_Join (tmpDir p) ''mimetype''))"
  shows "\<exists>e. add_files p fname w = (Some (Wrap ''unable to find mimetype file'' e), [])"
  using stat_missing [OF assms] by (auto simp add: add_files_def)

lemma close_epub_effect:
  assumes "fs_lookup (files w) fname = Inr (Regular old)" and "fname \<noteq> []"
  shows "fs_lookup (files (close_epub w fname epub)) fname = Inr (Regular (Zip epub))"
proof -
  have "write_slot (Zip epub) (Some (Regular old)) = Inr (Some (Regular (Zip epub)))"
    by (simp add: write_slot_def)
  from fs_update_possible [of "files w" fname "Regular old" "write_slot (Zip epub)", OF assms this]
  obtain t' where u: "fs_update (write_slot (Zip epub)) (files w) fname = Inr t'" by blast
  from fs_update_result [OF u] assms(1) have "fs_lookup t' fname = Inr (Regular (Zip epub))"
    by (auto simp add: slot_of_def write_slot_def)
  with u show ?thesis by (simp add: close_epub_def)
qed


subsection \<open>The claims about \<open>FinalizeEPUB\<close>\<close>

text \<open>
  C7, as amended. When \<open>FinalizeEPUB\<close> succeeds, and \<open>mimetype\<close> at the root of the staging
  directory is a regular file that is not the output path itself, the output file holds
  an archive whose first entry is named \<open>mimetype\<close>, is stored, and carries the content of
  that file; every entry after it is deflated. The walk contributes entries only behind
  the first one, whatever its order.
\<close>

theorem C7_mimetype_is_first_entry:
  assumes ok: "fst (FinalizeEPUB p fname w) = None"
    and reg: "fs_lookup (files w) (filepath_Join (tmpDir p) ''mimetype'') = Inr (Regular d)"
    and ne: "fname \<noteq> filepath_Join (tmpDir p) ''mimetype''"
  shows "\<exists>rest. fs_lookup (files (snd (FinalizeEPUB p fname w))) fname
              = Inr (Regular (Zip ((''mimetype'', Store, Some d) # rest)))
           \<and> (\<forall>e \<in> set rest. fst (snd e) = Deflate)"
proof -
  let ?mt = "filepath_Join (tmpDir p) ''mimetype''"
  obtain w' where fin: "FinalizeEPUB p fname w = (None, w')"
    using ok by (cases "FinalizeEPUB p fname w") simp
  from fin obtain w1 where prep: "prepare_output p fname w = Inr w1"
    and fill: "create_and_fill p fname w1 = (None, w')"
    by (cases "prepare_output p fname w") (auto simp add: FinalizeEPUB_def)
  from fill obtain w2 where cr: "os_Create w1 fname = Inr w2"
    by (cases "os_Create w1 fname") (auto simp add: create_and_fill_def)
  with fill obtain epub where af: "add_files p fname w2 = (None, epub)"
    and w': "w' = close_epub w2 fname epub"
    by (auto simp add: create_and_fill_def split: prod.splits)
  from prepare_effect(2) [OF prep] have fresh: "fs_lookup (files w1) fname = Inl ENOENT" .
  from prepare_keeps_file [OF prep reg ne] have "fs_lookup (files w1) ?mt = Inr (Regular d)" .
  from create_keeps_file [OF cr fresh this] have reg2: "fs_lookup (files w2) ?mt = Inr (Regular d)" .
  from add_files_anchor_first [OF af reg2 ne] obtain rest
    where epub: "epub = (''mimetype'', Store, Some d) # rest"
      and rest: "\<forall>e \<in> set rest. fst (snd e) = Deflate"
    by blast
  from close_epub_effect [OF create_effect(3) [OF cr fresh] create_effect(2) [OF cr]] w' epub
  have "fs_lookup (files w') fname = Inr (Regular (Zip ((''mimetype'', Store, Some d) # rest)))"
    by simp
  with rest fin show ?thesis by auto
qed

theorem C7_mimetype_is_first_entry_witness:
  "fst (FinalizeEPUB conv [''out'', ''new.epub''] \<lparr>files = staging, faults = {}\<rparr>) = None
   \<and> fs_lookup staging [''tmp'', ''mimetype''] = Inr (Regular (Bytes ''application/epub+zip''))
   \<and> (\<exists>rest. fs_lookup (files (snd (FinalizeEPUB conv [''out'', ''new.epub'']
                \<lparr>files = staging, faults = {}\<rparr>))) [''out'', ''new.epub'']
              = Inr (Regular (Zip ((''mimetype'', Store, Some (Bytes ''application/epub+zip'')) # rest)))
           \<and> (\<forall>e \<in> set rest. fst (snd e) = Deflate))"
proof -
  have h1: "fst (FinalizeEPUB conv [''out'', ''new.epub''] \<lparr>files = staging, faults = {}\<rparr>) = None"
    by code_simp
  have h2: "fs_lookup (files \<lparr>files = staging, faults = {}\<rparr>) (filepath_Join (tmpDir conv) ''mimetype'')
      = Inr (Regular (Bytes ''application/epub+zip''))"
    by code_simp
  have h3: "[''out'', ''new.epub''] \<noteq> filepath_Join (tmpDir conv) ''mimetype''"
    by code_simp
  have h4: "fs_lookup staging [''tmp'', ''mimetype''] = Inr (Regular (Bytes ''application/epub+zip''))"
    by code_simp
  from C7_mimetype_is_first_entry [OF h1 h2 h3] h1 h4 show ?thesis
    by simp
qed

text \<open>
  C7 as stated fails. When \<open>mimetype\<close> is a directory, \<open>saveFile\<close> skips it as not
  regular, the walk adds the files below it, and \<open>FinalizeEPUB\<close> succeeds with an archive
  whose first entry is \<open>mimetype/x\<close>, deflated. When the output path is the \<open>mimetype\<close> file
  and overwriting is allowed, that file is removed and created anew as the output, and
  \<open>saveFile\<close> skips it as the output itself.
\<close>

theorem C7_no_anchor_counterexample:
  "fst (FinalizeEPUB conv [''new.epub''] \<lparr>files = staging_mimetype_dir, faults = {}\<rparr>) = None
   \<and> fs_lookup (files (snd (FinalizeEPUB conv [''new.epub'']
          \<lparr>files = staging_mimetype_dir, faults = {}\<rparr>))) [''new.epub'']
       = Inr (Regular (Zip [(''mimetype/x'', Deflate, Some (Bytes ''X''))]))
   \<and> fst (FinalizeEPUB conv_overwrite [''tmp'', ''mimetype''] \<lparr>files = staging, faults = {}\<rparr>) = None
   \<and> fs_lookup (files (snd (FinalizeEPUB conv_overwrite [''tmp'', ''mimetype'']
          \<lparr>files = staging, faults = {}\<rparr>))) [''tmp'', ''mimetype'']
       = Inr (Regular (Zip [(''META-INF/container.xml'', Deflate, Some (Bytes ''C'')),
                            (''OEBPS/a.xhtml'', Deflate, Some (Bytes ''A'')),
                            (''OEBPS/b.xhtml'', Deflate, Some (Bytes ''B''))]))"
  by code_simp

text \<open>
  C8, as amended. When the output path exists, and neither \<open>overwrite\<close> nor the debug mode
  is set, \<open>FinalizeEPUB\<close> returns an error and leaves the world as it was, the file at the
  output path included; a second run from the world it left does the same. The error is
  "output file already exists" when \<open>os.Stat\<close> on the output path succeeds, and the error
  of \<open>os.Stat\<close> when it fails.
\<close>

theorem C8_existing_output_is_kept:
  assumes "fs_lookup (files w) fname = Inr n" and "\<not> env_Debug p" and "\<not> overwrite p"
  shows "fst (FinalizeEPUB p fname w) \<noteq> None
       \<and> snd (FinalizeEPUB p fname w) = w
       \<and> fs_lookup (files (snd (FinalizeEPUB p fname w))) fname = Inr n
       \<and> FinalizeEPUB p fname (snd (FinalizeEPUB p fname w)) = FinalizeEPUB p fname w
       \<and> (OpStat fname \<notin> faults w \<longrightarrow>
            FinalizeEPUB p fname w = (Some (OutputExists fname), w))
       \<and> (OpStat fname \<in> faults w \<longrightarrow>
            FinalizeEPUB p fname w = (Some (PathError (OpStat fname) EIO), w))"
proof (cases "OpStat fname \<in> faults w")
  case True
  then have "FinalizeEPUB p fname w = (Some (PathError (OpStat fname) EIO), w)"
    by (simp add: FinalizeEPUB_def prepare_output_def os_Stat_def)
  with True assms(1) show ?thesis by simp
next
  case False
  with assms have "FinalizeEPUB p fname w = (Some (OutputExists fname), w)"
    by (simp add: FinalizeEPUB_def prepare_output_def os_Stat_def)
  with False assms(1) show ?thesis by simp
qed

theorem C8_existing_output_is_kept_witness:
  "fs_lookup staging [''book.epub''] = Inr (Regular (Bytes ''old''))
   \<and> \<not> env_Debug conv \<and> \<not> overwrite conv
   \<and> FinalizeEPUB conv [''book.epub''] \<lparr>files = staging, faults = {}\<rparr>
       = (Some (OutputExists [''book.epub'']), \<lparr>files = staging, faults = {}\<rparr>)
   \<and> FinalizeEPUB conv [''book.epub''] \<lparr>files = staging, faults = {OpStat [''book.epub'']}\<rparr>
       = (Some (PathError (OpStat [''book.epub'']) EIO),
          \<lparr>files = staging, faults = {OpStat [''book.epub'']}\<rparr>)"
proof -
  have h1: "fs_lookup (files \<lparr>files = staging, faults = {}\<rparr>) [''book.epub'']
      = Inr (Regular (Bytes ''old''))"
    by code_simp
  have h1': "fs_lookup (files \<lparr>files = staging, faults = {OpStat [''book.epub'']}\<rparr>) [''book.epub'']
      = Inr (Regular (Bytes ''old''))"
    by code_simp
  have h2: "\<not> env_Debug conv" by (simp add: conv_def)
  have h3: "\<not> overwrite conv" by (simp add: conv_def)
  from C8_existing_output_is_kept [OF h1 h2 h3] C8_existing_output_is_kept [OF h1' h2 h3] h1 h2 h3
  show ?thesis by simp
qed

text \<open>
  C8 as stated fails: with the output file present and \<open>os.Stat\<close> failing on it, for a
  reason other than the file missing, the error returned is that of \<open>os.Stat\<close>, not "output
  file already exists". The file is unchanged all the same.
\<close>

theorem C8_stat_error_counterexample:
  "fs_lookup staging [''book.epub''] = Inr (Regular (Bytes ''old''))
   \<and> FinalizeEPUB conv [''book.epub''] \<lparr>files = staging, faults = {OpStat [''book.epub'']}\<rparr>
       = (Some (PathError (OpStat [''book.epub'']) EIO),
          \<lparr>files = staging, faults = {OpStat [''book.epub'']}\<rparr>)"
  by code_simp

text \<open>
  C9, as amended. When \<open>mimetype\<close> is missing at the root of the staging directory, and the
  output path is neither that path nor below it, \<open>FinalizeEPUB\<close> returns an error. When
  the output path could be prepared and the output file created, the error is "unable to
  find mimetype file", and the output file is left holding an archive without entries;
  otherwise the error is that of the step that failed.
\<close>

theorem C9_missing_mimetype_fails:
  assumes mis: "isl (fs_lookup (files w) (filepath_Join (tmpDir p) ''mimetype''))"
    and np: "\<not> prefix (filepath_Join (tmpDir p) ''mimetype'') fname"
  shows "fst (FinalizeEPUB p fname w) \<noteq> None
       \<and> (\<forall>w1. prepare_output p fname w = Inr w1 \<and> \<not> isl (os_Create w1 fname) \<longrightarrow>
            (\<exists>e. fst (FinalizeEPUB p fname w) = Some (Wrap ''unable to find mimetype file'' e))
            \<and> fs_lookup (files (snd (FinalizeEPUB p fname w))) fname = Inr (Regular (Zip [])))"
proof -
  let ?mt = "filepath_Join (tmpDir p) ''mimetype''"
  have created: "(\<exists>e. fst (FinalizeEPUB p fname w) = Some (Wrap ''unable to find mimetype file'' e))
            \<and> fs_lookup (files (snd (FinalizeEPUB p fname w))) fname = Inr (Regular (Zip []))"
    if prep: "prepare_output p fname w = Inr w1" and cr: "os_Create w1 fname = Inr w2" for w1 w2
  proof -
    from prepare_effect(2) [OF prep] have fresh: "fs_lookup (files w1) fname = Inl ENOENT" .
    from prepare_keeps_missing [OF prep mis np] have "isl (fs_lookup (files w1) ?mt)" .
    from create_keeps_missing [OF cr fresh this np] have "isl (fs_lookup (files w2) ?mt)" .
    from add_files_no_mimetype [OF this] obtain e
      where af: "add_files p fname w2 = (Some (Wrap ''unable to find mimetype file'' e), [])"
      by blast
    with prep cr have fin: "FinalizeEPUB p fname w
        = (Some (Wrap ''unable to find mimetype file'' e), close_epub w2 fname [])"
      by (simp add: FinalizeEPUB_def create_and_fill_def)
    from close_epub_effect [OF create_effect(3) [OF cr fresh] create_effect(2) [OF cr]] fin
    show ?thesis by simp
  qed
  have "fst (FinalizeEPUB p fname w) \<noteq> None"
  proof (cases "prepare_output p fname w")
    case (Inl err)
    then show ?thesis by (simp add: FinalizeEPUB_def)
  next
    case (Inr w1)
    show ?thesis
    proof (cases "os_Create w1 fname")
      case (Inl err)
      with Inr show ?thesis by (simp add: FinalizeEPUB_def create_and_fill_def)
    next
      case cr: (Inr w2)
      from created [OF Inr cr] show ?thesis by auto
    qed
  qed
  moreover have "(\<exists>e. fst (FinalizeEPUB p fname w) = Some (Wrap ''unable to find mimetype file'' e))
            \<and> fs_lookup (files (snd (FinalizeEPUB p fname w))) fname = Inr (Regular (Zip []))"
    if "prepare_output p fname w = Inr w1" and "\<not> isl (os_Create w1 fname)" for w1
    using that created [of w1] by (cases "os_Create w1 fname") auto
  ultimately show ?thesis by blast
qed

theorem C9_missing_mimetype_fails_witness:
  "isl (fs_lookup staging_no_mimetype [''tmp'', ''mimetype''])
   \<and> \<not> prefix [''tmp'', ''mimetype''] [''new.epub'']
   \<and> prepare_output conv [''new.epub''] \<lparr>files = staging_no_mimetype, faults = {}\<rparr>
       = Inr \<lparr>files = staging_no_mimetype, faults = {}\<rparr>
   \<and> \<not> isl (os_Create \<lparr>files = staging_no_mimetype, faults = {}\<rparr> [''new.epub''])
   \<and> fst (FinalizeEPUB conv [''new.epub''] \<lparr>files = staging_no_mimetype, faults = {}\<rparr>) \<noteq> None
   \<and> (\<exists>e. fst (FinalizeEPUB conv [''new.epub''] \<lparr>files = staging_no_mimetype, faults = {}\<rparr>)
            = Some (Wrap ''unable to find mimetype file'' e))
   \<and> fs_lookup (files (snd (FinalizeEPUB conv [''new.epub'']
          \<lparr>files = staging_no_mimetype, faults = {}\<rparr>))) [''new.epub''] = Inr (Regular (Zip []))"
proof -
  let ?w = "\<lparr>files = staging_no_mimetype, faults = {}\<rparr>"
  have h1: "isl (fs_lookup (files ?w) (filepath_Join (tmpDir conv) ''mimetype''))"
    by code_simp
  have h2: "\<not> prefix (filepath_Join (tmpDir conv) ''mimetype'') [''new.epub'']"
    by code_simp
  have h3: "prepare_output conv [''new.epub''] ?w = Inr ?w"
    by code_simp
  have h4: "\<not> isl (os_Create ?w [''new.epub''])"
    by code_simp
  have h5: "isl (fs_lookup staging_no_mimetype [''tmp'', ''mimetype''])"
    by code_simp
  have h6: "\<not> prefix [''tmp'', ''mimetype''] [''new.epub'']"
    by simp
  from C9_missing_mimetype_fails [OF h1 h2] h3 h4 h5 h6 show ?thesis
    by blast
qed

text \<open>
  C9 as stated fails. With \<open>mimetype\<close> missing and the output file present, without
  \<open>overwrite\<close>, the error is "output file already exists". With the output path
  \<open>/tmp/mimetype\<close> the output file itself becomes the \<open>mimetype\<close> that \<open>os.Stat\<close> finds, and
  \<open>FinalizeEPUB\<close> returns no error.
\<close>

theorem C9_missing_mimetype_counterexample:
  "isl (fs_lookup staging_no_mimetype [''tmp'', ''mimetype''])
   \<and> fst (FinalizeEPUB conv [''book.epub''] \<lparr>files = staging_no_mimetype, faults = {}\<rparr>)
       = Some (OutputExists [''book.epub''])
   \<and> fst (FinalizeEPUB conv [''tmp'', ''mimetype''] \<lparr>files = staging_no_mimetype, faults = {}\<rparr>)
       = None"
  by code_simp

end
